theory Spec2Isabelle
  imports Complex_Main "HOL-Library.AList"
begin

section \<open>Log surveillance of cardano-node-tests: utils/logfiles.py\<close>

text \<open>
  The module scans the log files of one cluster state directory. The embedding keeps
  the module's functions under their own names. What the module takes from Python's
  library (text files, \<open>fnmatch\<close>, \<open>re\<close>, \<open>sorted\<close>, \<open>str.split\<close>, \<open>int\<close>) is modelled
  first, on the fragment the module uses; the text says where the fragment ends.
  A file holds bytes, and a byte is one \<open>char\<close>.
\<close>

subsection \<open>Errors\<close>

text \<open>
  The exceptions the module's functions can end with. \<open>AssertionError\<close> carries the
  regex and the log file of the message of \<open>expect_errors\<close>. \<open>Unmodelled\<close> is no
  exception of Python: it marks an input outside the modelled fragment of a library
  function (a regex with groups or classes, a file that is not ASCII), on which the
  model makes no statement.
\<close>

datatype error =
    ValueError
  | ReError
  | FileNotFoundError
  | AssertionError string string
  | Unmodelled

subsection \<open>Characters and strings\<close>

definition LF :: char where
  "LF = CHR 0x0A"

definition CR :: char where
  "CR = CHR 0x0D"

definition is_digit :: "char \<Rightarrow> bool" where
  "is_digit c = (c \<in> set ''0123456789'')"

definition is_alnum :: "char \<Rightarrow> bool" where
  "is_alnum c =
     (c \<in> set ''0123456789abcdefghijklmnopqrstuvwxyzABCDEFGHIJKLMNOPQRSTUVWXYZ'')"

definition is_ascii :: "char \<Rightarrow> bool" where
  "is_ascii c = ((of_char c :: nat) < 128)"

text \<open>\<open>str.lower\<close> on an ASCII character.\<close>

definition lower_char :: "char \<Rightarrow> char" where
  "lower_char c =
     (let n = (of_char c :: nat) in if 65 \<le> n \<and> n \<le> 90 then char_of (n + 32) else c)"

text \<open>The characters \<open>str.strip()\<close> removes, among the ASCII ones.\<close>

definition is_space :: "char \<Rightarrow> bool" where
  "is_space c =
     (let n = (of_char c :: nat) in n = 32 \<or> (9 \<le> n \<and> n \<le> 13) \<or> (28 \<le> n \<and> n \<le> 31))"

definition strip :: "string \<Rightarrow> string" where
  "strip s = rev (dropWhile is_space (rev (dropWhile is_space s)))"

text \<open>\<open>s.rstrip("\n")\<close>.\<close>

definition rstrip_newlines :: "string \<Rightarrow> string" where
  "rstrip_newlines s = rev (dropWhile (\<lambda>c. c = LF) (rev s))"

fun startswith :: "string \<Rightarrow> string \<Rightarrow> bool" where
  "startswith s [] = True"
| "startswith [] (p # ps) = False"
| "startswith (c # cs) (p # ps) = (c = p \<and> startswith cs ps)"

definition endswith :: "string \<Rightarrow> string \<Rightarrow> bool" where
  "endswith s p = startswith (rev s) (rev p)"

text \<open>\<open>sep in s\<close> for strings.\<close>

fun contains :: "string \<Rightarrow> string \<Rightarrow> bool" where
  "contains [] sep = (sep = [])"
| "contains (c # cs) sep = (startswith (c # cs) sep \<or> contains cs sep)"

text \<open>\<open>sep.join(parts)\<close>.\<close>

fun join :: "string \<Rightarrow> string list \<Rightarrow> string" where
  "join sep [] = []"
| "join sep [x] = x"
| "join sep (x # y # ys) = x @ sep @ join sep (y # ys)"

text \<open>
  \<open>line.split(";;")\<close>: the pieces between the occurrences of the separator, found from
  the left without overlap. The accumulator holds the current piece, reversed.
\<close>

fun split_semis :: "string \<Rightarrow> string \<Rightarrow> string list" where
  "split_semis acc [] = [rev acc]"
| "split_semis acc [c] = [rev (c # acc)]"
| "split_semis acc (c # d # cs) =
     (if c = CHR '';'' \<and> d = CHR '';'' then rev acc # split_semis [] cs
      else split_semis (c # acc) (d # cs))"

text \<open>\<open>str(n)\<close> for an integer that is not negative.\<close>

definition digit_char :: "nat \<Rightarrow> char" where
  "digit_char k = char_of (48 + k)"

fun str_nat :: "nat \<Rightarrow> string" where
  "str_nat n = (if n < 10 then [digit_char n] else str_nat (n div 10) @ [digit_char (n mod 10)])"

declare str_nat.simps [simp del]

text \<open>
  \<open>int(s)\<close> on a decimal literal: blanks around it, a sign, then digits, where single
  underscores may stand between digits. Anything else raises ValueError.
\<close>

definition digit_val :: "char \<Rightarrow> nat" where
  "digit_val c = (of_char c :: nat) - 48"

fun digits_val :: "nat \<Rightarrow> string \<Rightarrow> nat option" where
  "digits_val acc [] = Some acc"
| "digits_val acc [c] = (if is_digit c then Some (10 * acc + digit_val c) else None)"
| "digits_val acc (c # d # cs) =
     (if is_digit c then
        (if d = CHR ''_'' then
           (if cs = [] then None else
              (if hd cs = CHR ''_'' then None else digits_val (10 * acc + digit_val c) cs))
         else digits_val (10 * acc + digit_val c) (d # cs))
      else None)"

definition py_int :: "string \<Rightarrow> error + int" where
  "py_int s0 =
     (let s = strip s0;
          neg = startswith s ''-'';
          body = (if startswith s ''-'' \<or> startswith s ''+'' then tl s else s)
      in if body = [] then Inl ValueError
         else (case digits_val 0 body of
                 None \<Rightarrow> Inl ValueError
               | Some n \<Rightarrow> Inr (if neg then - int n else int n)))"

subsection \<open>Text files\<close>

text \<open>
  A file opened in text mode translates \<open>\r\n\<close> and a lone \<open>\r\<close> to \<open>\n\<close> when read
  (universal newlines); iterating over it yields the lines, each with its newline, and a
  last line without one when the file does not end in a newline.
\<close>

fun universal_newlines :: "string \<Rightarrow> string" where
  "universal_newlines [] = []"
| "universal_newlines [c] = [if c = CR then LF else c]"
| "universal_newlines (c # d # cs) =
     (if c = CR \<and> d = LF then LF # universal_newlines cs
      else if c = CR then LF # universal_newlines (d # cs)
      else c # universal_newlines (d # cs))"

fun lines_from :: "string \<Rightarrow> string \<Rightarrow> string list" where
  "lines_from acc [] = (if acc = [] then [] else [rev acc])"
| "lines_from acc (c # cs) =
     (if c = LF then rev (c # acc) # lines_from [] cs else lines_from (c # acc) cs)"

definition text_lines :: "string \<Rightarrow> string list" where
  "text_lines bytes = lines_from [] (universal_newlines bytes)"

text \<open>
  \<open>infile.seek(offset)\<close> followed by \<open>for line in infile\<close>, on the bytes of a file opened
  with \<open>encoding="utf-8"\<close>: a negative offset raises ValueError; an offset past the end
  reads nothing. Bytes that are not ASCII are outside the model.
\<close>

definition read_lines_at :: "string \<Rightarrow> int \<Rightarrow> error + string list" where
  "read_lines_at bytes offset =
     (if offset < 0 then Inl ValueError
      else if list_all is_ascii (drop (nat offset) bytes)
           then Inr (text_lines (drop (nat offset) bytes))
           else Inl Unmodelled)"

subsection \<open>fnmatch\<close>

text \<open>
  \<open>fnmatch\<close> on POSIX, the pattern first, as in \<open>fnmatch.filter([name], pat)\<close>: \<open>*\<close> matches
  any run of characters, \<open>?\<close> one character, any other character itself, and the whole
  name has to be matched. A bracket expression is not interpreted: \<open>[\<close> matches itself,
  which is what fnmatch does with a bracket that is never closed.
\<close>

fun fnmatch :: "string \<Rightarrow> string \<Rightarrow> bool" where
  "fnmatch [] s = (s = [])"
| "fnmatch (p # ps) [] = (p = CHR ''*'' \<and> fnmatch ps [])"
| "fnmatch (p # ps) (c # cs) =
     (if p = CHR ''*'' then (fnmatch ps (c # cs) \<or> fnmatch (p # ps) cs)
      else if p = CHR ''?'' then fnmatch ps cs
      else (p = c \<and> fnmatch ps cs))"

subsection \<open>Regular expressions\<close>

text \<open>
  The fragment of Python's \<open>re\<close> syntax that the module's own patterns use: literal
  characters, \<open>.\<close> (any character but a newline), an escaped punctuation character, a
  postfix \<open>*\<close> on one of these, and \<open>|\<close> between branches. A compiled pattern is the
  list of its branches, a branch the list of its pieces.
\<close>

datatype atom = Ch char | Dot

datatype piece = One atom | Many atom

type_synonym branch = "piece list"

type_synonym pattern = "branch list"

text \<open>
  The characters with a meaning in \<open>re\<close> that the fragment leaves out: a pattern that
  uses one of them is Unmodelled, as is a backslash before a letter or a digit.
\<close>

definition beyond_fragment :: "char \<Rightarrow> bool" where
  "beyond_fragment c = (c \<in> set ''^$+?{}[]()'')"

text \<open>The tokens of a pattern: an atom, the star, the bar. A backslash at the end of the
  pattern is a \<open>re.error\<close>.\<close>

datatype token = TAtom atom | TStar | TBar

definition plain_token :: "char \<Rightarrow> token" where
  "plain_token c =
     (if c = CHR ''|'' then TBar
      else if c = CHR ''*'' then TStar
      else if c = CHR ''.'' then TAtom Dot
      else TAtom (Ch c))"

definition add_token :: "token \<Rightarrow> error + token list \<Rightarrow> error + token list" where
  "add_token t r = (case r of Inl e \<Rightarrow> Inl e | Inr ts \<Rightarrow> Inr (t # ts))"

fun re_tokens :: "string \<Rightarrow> error + token list" where
  "re_tokens [] = Inr []"
| "re_tokens [c] =
     (if c = CHR 0x5C then Inl ReError
      else if beyond_fragment c then Inl Unmodelled
      else Inr [plain_token c])"
| "re_tokens (c # d # cs) =
     (if c = CHR 0x5C then
        (if is_alnum d then Inl Unmodelled else add_token (TAtom (Ch d)) (re_tokens cs))
      else if beyond_fragment c then Inl Unmodelled
      else add_token (plain_token c) (re_tokens (d # cs)))"

definition add_piece :: "piece \<Rightarrow> error + pattern \<Rightarrow> error + pattern" where
  "add_piece p r =
     (case r of
        Inl e \<Rightarrow> Inl e
      | Inr bs \<Rightarrow> (case bs of [] \<Rightarrow> Inr [[p]] | b # rest \<Rightarrow> Inr ((p # b) # rest)))"

definition add_branch :: "error + pattern \<Rightarrow> error + pattern" where
  "add_branch r = (case r of Inl e \<Rightarrow> Inl e | Inr bs \<Rightarrow> Inr ([] # bs))"

text \<open>The branches of a token list: a star needs an atom just before it, or it is a
  \<open>re.error\<close> (nothing to repeat, multiple repeat).\<close>

fun re_parse :: "token list \<Rightarrow> error + pattern" where
  "re_parse [] = Inr [[]]"
| "re_parse (TBar # ts) = add_branch (re_parse ts)"
| "re_parse (TStar # ts) = Inl ReError"
| "re_parse [TAtom a] = Inr [[One a]]"
| "re_parse (TAtom a # t # ts) =
     (if t = TStar then add_piece (Many a) (re_parse ts)
      else add_piece (One a) (re_parse (t # ts)))"

text \<open>\<open>re.compile(pattern)\<close>.\<close>

definition re_compile :: "string \<Rightarrow> error + pattern" where
  "re_compile s = (case re_tokens s of Inl e \<Rightarrow> Inl e | Inr ts \<Rightarrow> re_parse ts)"

text \<open>Matching; \<open>ic\<close> is the flag \<open>re.IGNORECASE\<close>.\<close>

fun atom_ok :: "bool \<Rightarrow> atom \<Rightarrow> char \<Rightarrow> bool" where
  "atom_ok ic Dot c = (if c = LF then False else True)"
| "atom_ok ic (Ch p) c = (if ic then lower_char p = lower_char c else p = c)"

text \<open>A branch matches a prefix of the string.\<close>

fun match_here :: "bool \<Rightarrow> branch \<Rightarrow> string \<Rightarrow> bool" where
  "match_here ic [] s = True"
| "match_here ic (One a # ps) [] = False"
| "match_here ic (One a # ps) (c # cs) = (atom_ok ic a c \<and> match_here ic ps cs)"
| "match_here ic (Many a # ps) [] = match_here ic ps []"
| "match_here ic (Many a # ps) (c # cs) =
     (match_here ic ps (c # cs) \<or> (atom_ok ic a c \<and> match_here ic (Many a # ps) cs))"

text \<open>A branch matches somewhere in the string.\<close>

fun search_branch :: "bool \<Rightarrow> branch \<Rightarrow> string \<Rightarrow> bool" where
  "search_branch ic b [] = match_here ic b []"
| "search_branch ic b (c # cs) = (match_here ic b (c # cs) \<or> search_branch ic b cs)"

text \<open>\<open>pattern.search(line) is not None\<close>.\<close>

definition re_search :: "bool \<Rightarrow> pattern \<Rightarrow> string \<Rightarrow> bool" where
  "re_search ic bs line = list_ex (\<lambda>b. search_branch ic b line) bs"

subsection \<open>The state directory\<close>

text \<open>
  The state directory is flat: its entries are plain files, in the order in which the
  directory lists them, each with its bytes and its modification time. A modification
  time is a float in the source; only its order is used.
\<close>

record entry =
  content :: string
  mtime :: real

type_synonym directory = "(string \<times> entry) list"

text \<open>\<open>path.glob(pat)\<close> on the directory, for a pattern of one component.\<close>

definition glob_entries :: "directory \<Rightarrow> string \<Rightarrow> (string \<times> entry) list" where
  "glob_entries d pat = filter (\<lambda>ne. fnmatch pat (fst ne)) d"

text \<open>
  Writing a file: \<open>open(path, "w")\<close> replaces the bytes, \<open>open(path, "a")\<close> extends them;
  both create the file when it is missing and stamp it with the time of the write.
\<close>

definition write_file :: "real \<Rightarrow> string \<Rightarrow> string \<Rightarrow> directory \<Rightarrow> directory" where
  "write_file now name data d = AList.update name \<lparr>content = data, mtime = now\<rparr> d"

definition append_file :: "real \<Rightarrow> string \<Rightarrow> string \<Rightarrow> directory \<Rightarrow> directory" where
  "append_file now name data d =
     (case map_of d name of
        None \<Rightarrow> AList.update name \<lparr>content = data, mtime = now\<rparr> d
      | Some f \<Rightarrow> AList.update name \<lparr>content = content f @ data, mtime = now\<rparr> d)"

subsection \<open>Versions of a rotated log file\<close>

text \<open>
  \<open>sorted(records, key=..., reverse=True)\<close>: Python reverses the list, sorts it with a
  stable sort and reverses the result, so equal keys keep their order.
\<close>

definition sorted_reverse :: "('a \<Rightarrow> real) \<Rightarrow> 'a list \<Rightarrow> 'a list" where
  "sorted_reverse key xs = rev (sort_key key (rev xs))"

record RotableLog =
  logfile :: string
  seek :: int
  timestamp :: real

text \<open>
  \<open>get_rotated_logs(logfile, seek, timestamp)\<close>, the directory being the parent of
  \<open>logfile\<close> and \<open>logfile\<close> its name in it.
\<close>

definition get_rotated_logs :: "directory \<Rightarrow> string \<Rightarrow> int \<Rightarrow> real \<Rightarrow> RotableLog list" where
  "get_rotated_logs d name sk ts =
     (let logfiles = glob_entries d (name @ ''*'');
          records0 = map (\<lambda>ne. \<lparr>logfile = fst ne, seek = 0, timestamp = mtime (snd ne)\<rparr>) logfiles;
          records1 = filter (\<lambda>r. timestamp r > ts) records0;
          logfile_records = sorted_reverse timestamp records1
      in case logfile_records of
           [] \<Rightarrow> []
         | oldest_record # rest \<Rightarrow> (oldest_record\<lparr>seek := sk\<rparr>) # rest)"

subsection \<open>Module constants\<close>

text \<open>\<open>ROTATED_RE = re.compile(r".+\.[0-9]+")\<close>, used through \<open>ROTATED_RE.match\<close>: the
  string starts with one or more characters other than a newline, then a dot and a
  digit. The helper looks for the dot and the digit after the first character.\<close>

fun dot_digit_ahead :: "string \<Rightarrow> bool" where
  "dot_digit_ahead [] = False"
| "dot_digit_ahead [c] = False"
| "dot_digit_ahead (c # d # cs) =
     ((c = CHR ''.'' \<and> is_digit d) \<or> (dot_digit_ahead (d # cs) \<and> c \<noteq> LF))"

definition ROTATED_RE_match :: "string \<Rightarrow> bool" where
  "ROTATED_RE_match s = (case s of [] \<Rightarrow> False | c # cs \<Rightarrow> dot_digit_ahead cs \<and> c \<noteq> LF)"

text \<open>\<open>ERRORS_RE = re.compile(":error:|failed|failure", re.IGNORECASE)\<close>, used through
  \<open>ERRORS_RE.search\<close>.\<close>

definition ERRORS_RE_search :: "string \<Rightarrow> bool" where
  "ERRORS_RE_search line =
     (case re_compile '':error:|failed|failure'' of
        Inl e \<Rightarrow> False
      | Inr p \<Rightarrow> re_search True p line)"

text \<open>\<open>ERRORS_IGNORED\<close>; the argument says whether \<open>VERSIONS.cluster_era\<close> is Alonzo, which
  appends one more regex.\<close>

definition ERRORS_IGNORED :: "bool \<Rightarrow> string list" where
  "ERRORS_IGNORED alonzo =
     [''Connection Attempt Exception'',
      ''EKGServerStartupError'',
      ''ExceededTimeLimit'',
      ''Failed to start all required subscriptions'',
      ''TraceDidntAdoptBlock'',
      ''failedScripts'',
      ''closed when reading data, waiting on next header'',
      ''MuxIOException writev: resource vanished'',
      ''MuxIOException Network'' @ [CHR 0x5C] @ ''.Socket'' @ [CHR 0x5C] @ ''.recvBuf: resource vanished'',
      ''db-sync-node:.* AsyncCancelled'',
      ''db-sync-node:.* validateEpochRewardsBefore'',
      ''db-sync-node:.*could not serialize access'']
     @ (if alonzo then [''cardano'' @ [CHR 0x5C] @ ''.node'' @ [CHR 0x5C] @ ''.Mempool:Info''] else [])"

definition ERRORS_RULES_FILE_NAME :: string where
  "ERRORS_RULES_FILE_NAME = ''.errors_rules''"

subsection \<open>The store of ignore rules\<close>

text \<open>The name of the rules file of \<open>rules_file_id\<close> in the state directory.\<close>

definition rules_file :: "string \<Rightarrow> string" where
  "rules_file rules_file_id = ERRORS_RULES_FILE_NAME @ ''_'' @ rules_file_id"

text \<open>\<open>add_ignore_rule(files_glob, regex, rules_file_id)\<close> at time \<open>now\<close>.\<close>

definition add_ignore_rule :: "real \<Rightarrow> string \<Rightarrow> string \<Rightarrow> string \<Rightarrow> directory \<Rightarrow> directory" where
  "add_ignore_rule now files_glob regex rules_file_id d =
     append_file now (rules_file rules_file_id) (files_glob @ '';;'' @ regex @ [LF]) d"

text \<open>\<open>Path.unlink()\<close>.\<close>

definition unlink :: "string \<Rightarrow> directory \<Rightarrow> error + directory" where
  "unlink name d =
     (case map_of d name of
        None \<Rightarrow> Inl FileNotFoundError
      | Some f \<Rightarrow> Inr (AList.delete name d))"

text \<open>\<open>del_rules_file(rules_file_id)\<close>: only FileNotFoundError is caught.\<close>

definition del_rules_file :: "string \<Rightarrow> directory \<Rightarrow> error + directory" where
  "del_rules_file rules_file_id d =
     (case unlink (rules_file rules_file_id) d of
        Inr d' \<Rightarrow> Inr d'
      | Inl e \<Rightarrow> (if e = FileNotFoundError then Inr d else Inl e))"

text \<open>The loop over the lines of one rules file, in \<open>get_ignore_rules\<close>.\<close>

fun rules_of_lines :: "string list \<Rightarrow> error + (string \<times> string) list" where
  "rules_of_lines [] = Inr []"
| "rules_of_lines (line # ls) =
     (if contains line '';;'' then
        (case split_semis [] line of
           [files_glob, regex] \<Rightarrow>
             (case rules_of_lines ls of
                Inl e \<Rightarrow> Inl e
              | Inr rules \<Rightarrow> Inr ((files_glob, rstrip_newlines regex) # rules))
         | _ \<Rightarrow> Inl ValueError)
      else rules_of_lines ls)"

text \<open>The loop over the rules files.\<close>

fun rules_of_files :: "(string \<times> entry) list \<Rightarrow> error + (string \<times> string) list" where
  "rules_of_files [] = Inr []"
| "rules_of_files (nf # fs) =
     (case read_lines_at (content (snd nf)) 0 of
        Inl e \<Rightarrow> Inl e
      | Inr ls \<Rightarrow>
          (case rules_of_lines ls of
             Inl e \<Rightarrow> Inl e
           | Inr rules \<Rightarrow>
               (case rules_of_files fs of
                  Inl e \<Rightarrow> Inl e
                | Inr later \<Rightarrow> Inr (rules @ later))))"

definition get_ignore_rules :: "directory \<Rightarrow> error + (string \<times> string) list" where
  "get_ignore_rules d = rules_of_files (glob_entries d (ERRORS_RULES_FILE_NAME @ ''_*''))"

subsection \<open>The ignore regex of a log file\<close>

text \<open>
  \<open>get_ignore_regex(ignore_rules, regexes, logfile)\<close>, with the name of \<open>logfile\<close>. Python
  joins the elements of a set, in an order it does not specify; the model joins them in
  the order of their last insertion.
\<close>

definition get_ignore_regex :: "(string \<times> string) list \<Rightarrow> string list \<Rightarrow> string \<Rightarrow> string" where
  "get_ignore_regex ignore_rules regexes name =
     join ''|'' (remdups (regexes @ map snd (filter (\<lambda>record. fnmatch (fst record) name) ignore_rules)))"

subsection \<open>Bookmarks\<close>

text \<open>Modelled from the spec: \<open>helpers.get_eof_offset(path)\<close>, which is not among the
  sources, "the current end-of-file offset" of the file: the number of its bytes.\<close>

definition get_eof_offset :: "entry \<Rightarrow> int" where
  "get_eof_offset f = int (length (content f))"

text \<open>\<open>str(n)\<close> for an integer.\<close>

definition str_int :: "int \<Rightarrow> string" where
  "str_int i = (if i < 0 then ''-'' @ str_nat (nat (- i)) else str_nat (nat i))"

text \<open>\<open>_get_seek(fpath)\<close>, on the bytes of the offset file: the first line, stripped, as an
  integer.\<close>

definition get_seek :: "string \<Rightarrow> error + int" where
  "get_seek bytes =
     (case read_lines_at bytes 0 of
        Inl e \<Rightarrow> Inl e
      | Inr ls \<Rightarrow> py_int (strip (case ls of [] \<Rightarrow> [] | l # rest \<Rightarrow> l)))"

definition offset_file :: "string \<Rightarrow> string" where
  "offset_file name = ''.'' @ name @ ''.offset''"

subsection \<open>The sweep\<close>

text \<open>The test on one line, in \<open>search_cluster_artifacts\<close>.\<close>

definition offending :: "string \<Rightarrow> pattern \<Rightarrow> string \<Rightarrow> bool" where
  "offending errors_ignored errors_ignored_re line =
     (ERRORS_RE_search line \<and> \<not> (errors_ignored \<noteq> [] \<and> re_search False errors_ignored_re line))"

text \<open>The loop over the records of \<open>get_rotated_logs\<close>: each file is opened and read from
  \<open>sk\<close>, the offset read from the offset file.\<close>

fun scan_records ::
  "directory \<Rightarrow> string \<Rightarrow> int \<Rightarrow> string \<Rightarrow> pattern \<Rightarrow> RotableLog list \<Rightarrow> error + (string \<times> string) list"
where
  "scan_records d name sk errors_ignored errors_ignored_re [] = Inr []"
| "scan_records d name sk errors_ignored errors_ignored_re (logfile_rec # recs) =
     (case map_of d (logfile logfile_rec) of
        None \<Rightarrow> Inl FileNotFoundError
      | Some f \<Rightarrow>
          (case read_lines_at (content f) sk of
             Inl e \<Rightarrow> Inl e
           | Inr ls \<Rightarrow>
               (case scan_records d name sk errors_ignored errors_ignored_re recs of
                  Inl e \<Rightarrow> Inl e
                | Inr errors \<Rightarrow>
                    Inr (map (Pair name) (filter (offending errors_ignored errors_ignored_re) ls)
                         @ errors))))"

text \<open>The seek offset and the timestamp of the last search, read from the offset file
  when there is one.\<close>


definition read_bookmark :: "directory \<Rightarrow> string \<Rightarrow> error + (int \<times> real)" where
  "read_bookmark d name =
     (case map_of d (offset_file name) of
        None \<Rightarrow> Inr (0, 0)
      | Some f \<Rightarrow> (case get_seek (content f) of Inl e \<Rightarrow> Inl e | Inr sk \<Rightarrow> Inr (sk, mtime f)))"

text \<open>The body of the loop over the log files, for a log file that is not skipped: the
  new directory and the errors found.\<close>

definition sweep_logfile ::
  "(string \<times> string) list \<Rightarrow> string list \<Rightarrow> real \<Rightarrow> string \<Rightarrow> directory
   \<Rightarrow> error + ((string \<times> string) list \<times> directory)"
where
  "sweep_logfile ignore_rules regexes now name d =
     (case read_bookmark d name of
        Inl e \<Rightarrow> Inl e
      | Inr (sk, ts) \<Rightarrow>
          (let errors_ignored = get_ignore_regex ignore_rules regexes name in
           case re_compile errors_ignored of
             Inl e \<Rightarrow> Inl e
           | Inr errors_ignored_re \<Rightarrow>
               (case map_of d name of
                  None \<Rightarrow> Inl FileNotFoundError
                | Some live \<Rightarrow>
                    (let d' = write_file now (offset_file name) (str_int (get_eof_offset live)) d in
                     case scan_records d' name sk errors_ignored errors_ignored_re
                            (get_rotated_logs d' name sk ts) of
                       Inl e \<Rightarrow> Inl e
                     | Inr errors \<Rightarrow> Inr (errors, d')))))"

text \<open>A listed file is skipped when it is an offset file or a rotated log.\<close>

definition skipped :: "string \<Rightarrow> bool" where
  "skipped name = (endswith name ''.offset'' \<or> ROTATED_RE_match name)"

text \<open>The loop over the log files that \<open>state_dir.glob("*.std*")\<close> listed.\<close>

fun sweep_logfiles ::
  "(string \<times> string) list \<Rightarrow> string list \<Rightarrow> real \<Rightarrow> string list \<Rightarrow> directory
   \<Rightarrow> error + ((string \<times> string) list \<times> directory)"
where
  "sweep_logfiles ignore_rules regexes now [] d = Inr ([], d)"
| "sweep_logfiles ignore_rules regexes now (name # names) d =
     (if skipped name
      then sweep_logfiles ignore_rules regexes now names d
      else (case sweep_logfile ignore_rules regexes now name d of
              Inl e \<Rightarrow> Inl e
            | Inr (errors, d') \<Rightarrow>
                (case sweep_logfiles ignore_rules regexes now names d' of
                   Inl e \<Rightarrow> Inl e
                 | Inr (later, d'') \<Rightarrow> Inr (errors @ later, d''))))"

text \<open>\<open>search_cluster_artifacts()\<close> on the state directory \<open>d\<close> at time \<open>now\<close>: the errors, each
  with the name of its log file, and the directory it leaves.\<close>

definition search_cluster_artifacts ::
  "bool \<Rightarrow> real \<Rightarrow> directory \<Rightarrow> error + ((string \<times> string) list \<times> directory)"
where
  "search_cluster_artifacts alonzo now d =
     (case get_ignore_rules d of
        Inl e \<Rightarrow> Inl e
      | Inr ignore_rules \<Rightarrow>
          sweep_logfiles ignore_rules (ERRORS_IGNORED alonzo) now
            (map fst (glob_entries d ''*.std*'')) d)"

subsection \<open>Expected errors\<close>

text \<open>
  \<open>expect_errors\<close> is a context manager: the part before \<open>yield\<close> runs on entry, the part
  after it on exit, and the caller's block runs in between. \<open>sd\<close> is \<open>str(state_dir)\<close>, an
  absolute path; \<open>str(state_dir / name)\<close> puts a slash between the two.
\<close>

definition full_path :: "string \<Rightarrow> string \<Rightarrow> string" where
  "full_path sd name = sd @ ''/'' @ name"

text \<open>\<open>Path(p).name\<close>: what follows the last slash.\<close>

definition path_name :: "string \<Rightarrow> string" where
  "path_name p = rev (takeWhile (\<lambda>c. c \<noteq> CHR ''/'') (rev p))"

text \<open>
  \<open>list(state_dir.glob(glob_item))\<close> for a pattern the caller chose: an empty pattern and
  a \<open>**\<close> inside a component raise ValueError. A pattern that leaves the flat directory
  (a slash, \<open>**\<close>, \<open>.\<close>, \<open>..\<close>) is outside the model.
\<close>

definition state_dir_glob :: "directory \<Rightarrow> string \<Rightarrow> error + string list" where
  "state_dir_glob d pat =
     (if pat = [] then Inl ValueError
      else if CHR ''/'' \<in> set pat \<or> pat = ''**'' \<or> pat = ''.'' \<or> pat = ''..'' then Inl Unmodelled
      else if contains pat ''**'' then Inl ValueError
      else Inr (map fst (glob_entries d pat)))"

text \<open>The list comprehension over \<open>glob_list\<close>, flattened.\<close>

fun expand_globs :: "directory \<Rightarrow> string list \<Rightarrow> error + string list" where
  "expand_globs d [] = Inr []"
| "expand_globs d (glob_item # globs) =
     (case state_dir_glob d glob_item of
        Inl e \<Rightarrow> Inl e
      | Inr names \<Rightarrow>
          (case expand_globs d globs of
             Inl e \<Rightarrow> Inl e
           | Inr later \<Rightarrow> Inr (names @ later)))"

text \<open>The dictionary \<open>seek_offsets\<close>, its keys in the order of their first insertion.\<close>

fun record_offsets :: "string \<Rightarrow> directory \<Rightarrow> string list \<Rightarrow> (string \<times> int) list
    \<Rightarrow> error + (string \<times> int) list" where
  "record_offsets sd d [] seek_offsets = Inr seek_offsets"
| "record_offsets sd d (name # names) seek_offsets =
     (case map_of d name of
        None \<Rightarrow> Inl FileNotFoundError
      | Some f \<Rightarrow>
          record_offsets sd d names (AList.update (full_path sd name) (get_eof_offset f) seek_offsets))"

text \<open>The first loop of \<open>expect_errors\<close>.\<close>

fun add_ignore_rules :: "real \<Rightarrow> (string \<times> string) list \<Rightarrow> string \<Rightarrow> directory \<Rightarrow> directory" where
  "add_ignore_rules now [] rules_file_id d = d"
| "add_ignore_rules now (pair # pairs) rules_file_id d =
     add_ignore_rules now pairs rules_file_id
       (add_ignore_rule now (fst pair) (snd pair) rules_file_id d)"

text \<open>Entry, at time \<open>now\<close>: the directory with the rules added, \<open>seek_offsets\<close> and
  \<open>timestamp\<close>.\<close>

definition expect_errors_enter ::
  "real \<Rightarrow> string \<Rightarrow> (string \<times> string) list \<Rightarrow> string \<Rightarrow> directory
   \<Rightarrow> error + (directory \<times> (string \<times> int) list \<times> real)"
where
  "expect_errors_enter now sd regex_pairs rules_file_id d =
     (let d' = add_ignore_rules now regex_pairs rules_file_id d in
      case expand_globs d' (map fst regex_pairs) of
        Inl e \<Rightarrow> Inl e
      | Inr expanded_paths \<Rightarrow>
          (case record_offsets sd d' expanded_paths [] of
             Inl e \<Rightarrow> Inl e
           | Inr seek_offsets \<Rightarrow> Inr (d', seek_offsets, now)))"

text \<open>The loop over the records of \<open>get_rotated_logs\<close> on exit: whether a line matching
  the regex was found. Each file is read from \<open>sk\<close>, the offset recorded for the log
  file.\<close>

fun found_in_records :: "directory \<Rightarrow> int \<Rightarrow> pattern \<Rightarrow> RotableLog list \<Rightarrow> error + bool" where
  "found_in_records d sk regex_comp [] = Inr False"
| "found_in_records d sk regex_comp (logfile_rec # recs) =
     (case map_of d (logfile logfile_rec) of
        None \<Rightarrow> Inl FileNotFoundError
      | Some f \<Rightarrow>
          (case read_lines_at (content f) sk of
             Inl e \<Rightarrow> Inl e
           | Inr ls \<Rightarrow>
               if list_ex (re_search False regex_comp) ls then Inr True
               else found_in_records d sk regex_comp recs))"

text \<open>The loop over \<open>matching_files\<close>, which are keys of \<open>seek_offsets\<close>.\<close>

fun verify_files ::
  "directory \<Rightarrow> (string \<times> int) list \<Rightarrow> real \<Rightarrow> string \<Rightarrow> pattern \<Rightarrow> string list \<Rightarrow> error + unit"
where
  "verify_files d seek_offsets ts regex regex_comp [] = Inr ()"
| "verify_files d seek_offsets ts regex regex_comp (key # keys) =
     (if ROTATED_RE_match key then verify_files d seek_offsets ts regex regex_comp keys
      else
        (let sk = (case map_of seek_offsets key of None \<Rightarrow> 0 | Some v \<Rightarrow> v) in
         case found_in_records d sk regex_comp (get_rotated_logs d (path_name key) sk ts) of
           Inl e \<Rightarrow> Inl e
         | Inr found \<Rightarrow>
             if found then verify_files d seek_offsets ts regex regex_comp keys
             else Inl (AssertionError regex key)))"

text \<open>The body of the loop over \<open>regex_pairs\<close> on exit.\<close>

definition verify_pair ::
  "string \<Rightarrow> (string \<times> int) list \<Rightarrow> real \<Rightarrow> directory \<Rightarrow> string \<times> string \<Rightarrow> error + unit"
where
  "verify_pair sd seek_offsets ts d pair =
     (case re_compile (snd pair) of
        Inl e \<Rightarrow> Inl e
      | Inr regex_comp \<Rightarrow>
          verify_files d seek_offsets ts (snd pair) regex_comp
            (filter (fnmatch (full_path sd (fst pair))) (map fst seek_offsets)))"

text \<open>Exit, on the directory the caller's block left.\<close>

fun expect_errors_exit ::
  "string \<Rightarrow> (string \<times> int) list \<Rightarrow> real \<Rightarrow> directory \<Rightarrow> (string \<times> string) list \<Rightarrow> error + unit"
where
  "expect_errors_exit sd seek_offsets ts d [] = Inr ()"
| "expect_errors_exit sd seek_offsets ts d (pair # pairs) =
     (case verify_pair sd seek_offsets ts d pair of
        Inl e \<Rightarrow> Inl e
      | Inr u \<Rightarrow> expect_errors_exit sd seek_offsets ts d pairs)"

text \<open>\<open>with expect_errors(regex_pairs, rules_file_id): block\<close>, where the block turns the
  directory \<open>d\<close> into \<open>block d\<close> and does not raise.\<close>

definition expect_errors ::
  "real \<Rightarrow> string \<Rightarrow> (string \<times> string) list \<Rightarrow> string \<Rightarrow> (directory \<Rightarrow> directory) \<Rightarrow> directory
   \<Rightarrow> error + directory"
where
  "expect_errors now sd regex_pairs rules_file_id block d =
     (case expect_errors_enter now sd regex_pairs rules_file_id d of
        Inl e \<Rightarrow> Inl e
      | Inr (d', seek_offsets, ts) \<Rightarrow>
          (case expect_errors_exit sd seek_offsets ts (block d') regex_pairs of
             Inl e \<Rightarrow> Inl e
           | Inr u \<Rightarrow> Inr (block d')))"

subsection \<open>The lock around the shared files\<close>

text \<open>
  Modelled from the spec: \<open>locking.FileLockIfXdist(path)\<close>, which is not among the sources,
  is the "named advisory file lock" of the cluster instance; a \<open>with\<close> block on it acquires
  the lock on entry and releases it on exit. The trace of a call that does not raise lists,
  in order, these two events and the accesses of the call to rules files and to offset
  files (the reads of log files are left out). \<open>lock\<close> is the path of the lock file,
  \<open>f"{basetemp}/ignore_rules_{cluster_env.instance_num}.lock"\<close>.
\<close>

datatype event =
    Acquire string
  | Release string
  | Rules_file string
  | Bookmark_read string
  | Bookmark_write string

definition add_ignore_rule_events :: "string \<Rightarrow> string \<Rightarrow> event list" where
  "add_ignore_rule_events lock rules_file_id =
     [Acquire lock, Rules_file (rules_file rules_file_id), Release lock]"

definition del_rules_file_events :: "string \<Rightarrow> string \<Rightarrow> event list" where
  "del_rules_file_events lock rules_file_id =
     [Acquire lock, Rules_file (rules_file rules_file_id), Release lock]"

definition get_ignore_rules_events :: "string \<Rightarrow> directory \<Rightarrow> event list" where
  "get_ignore_rules_events lock d =
     Acquire lock
     # map (\<lambda>ne. Rules_file (fst ne)) (glob_entries d (ERRORS_RULES_FILE_NAME @ ''_*''))
     @ [Release lock]"

text \<open>The loop of \<open>search_cluster_artifacts\<close>: for a log file that is not skipped, the offset
  file is looked up and read, then written; no \<open>with\<close> block stands around either.\<close>

fun sweep_logfiles_events :: "string list \<Rightarrow> event list" where
  "sweep_logfiles_events [] = []"
| "sweep_logfiles_events (name # names) =
     (if skipped name then sweep_logfiles_events names
      else Bookmark_read (offset_file name) # Bookmark_write (offset_file name)
           # sweep_logfiles_events names)"

definition search_cluster_artifacts_events :: "string \<Rightarrow> directory \<Rightarrow> event list" where
  "search_cluster_artifacts_events lock d =
     get_ignore_rules_events lock d
     @ sweep_logfiles_events (map fst (glob_entries d ''*.std*''))"

text \<open>Whether the lock is held after a trace, given whether it was held before.\<close>

fun held_after :: "string \<Rightarrow> bool \<Rightarrow> event list \<Rightarrow> bool" where
  "held_after lock held [] = held"
| "held_after lock held (Acquire l # es) = held_after lock (held \<or> l = lock) es"
| "held_after lock held (Release l # es) = held_after lock (held \<and> l \<noteq> lock) es"
| "held_after lock held (Rules_file n # es) = held_after lock held es"
| "held_after lock held (Bookmark_read n # es) = held_after lock held es"
| "held_after lock held (Bookmark_write n # es) = held_after lock held es"

text \<open>Every access of the trace to a rules file or an offset file happens while the lock
  is held.\<close>

fun guarded :: "string \<Rightarrow> bool \<Rightarrow> event list \<Rightarrow> bool" where
  "guarded lock held [] = True"
| "guarded lock held (Acquire l # es) = guarded lock (held \<or> l = lock) es"
| "guarded lock held (Release l # es) = guarded lock (held \<and> l \<noteq> lock) es"
| "guarded lock held (Rules_file n # es) = (held \<and> guarded lock held es)"
| "guarded lock held (Bookmark_read n # es) = (held \<and> guarded lock held es)"
| "guarded lock held (Bookmark_write n # es) = (held \<and> guarded lock held es)"

text \<open>The trace acquires or releases no lock.\<close>

fun lock_free :: "event list \<Rightarrow> bool" where
  "lock_free [] = True"
| "lock_free (Acquire l # es) = False"
| "lock_free (Release l # es) = False"
| "lock_free (Rules_file n # es) = lock_free es"
| "lock_free (Bookmark_read n # es) = lock_free es"
| "lock_free (Bookmark_write n # es) = lock_free es"

subsection \<open>Notions the properties are stated with\<close>



definition compiles :: "string \<Rightarrow> bool" where
  "compiles regex = (case re_compile regex of Inl e \<Rightarrow> False | Inr p \<Rightarrow> True)"





section \<open>Properties\<close>

subsection \<open>The versions of a log file\<close>

text \<open>The records come newest first, whatever the directory holds.\<close>

lemma get_rotated_logs_newest_first:
  "sorted (rev (map timestamp (get_rotated_logs d name sk ts)))"
proof -
  let ?recs = "filter (\<lambda>r. ts < timestamp r)
      (map (\<lambda>ne. \<lparr>logfile = fst ne, seek = 0, timestamp = mtime (snd ne)\<rparr>)
         (glob_entries d (name @ ''*'')))"
  have "map timestamp (get_rotated_logs d name sk ts) =
        map timestamp (sorted_reverse timestamp ?recs)"
    by (simp add: get_rotated_logs_def Let_def split: list.splits)
  then show ?thesis
    by (simp add: sorted_reverse_def rev_map)
qed

text \<open>The saved offset goes to the first record, the newest one; the others carry 0.\<close>

lemma get_rotated_logs_seek_on_first:
  assumes "get_rotated_logs d name sk ts = r # rs"
  shows "seek r = sk \<and> list_all (\<lambda>x. seek x = 0) rs"
proof -
  let ?recs = "filter (\<lambda>r. ts < timestamp r)
      (map (\<lambda>ne. \<lparr>logfile = fst ne, seek = 0, timestamp = mtime (snd ne)\<rparr>)
         (glob_entries d (name @ ''*'')))"
  have all0: "list_all (\<lambda>x. seek x = 0) (sorted_reverse timestamp ?recs)"
    by (auto simp: list_all_iff sorted_reverse_def)
  from assms obtain first where "sorted_reverse timestamp ?recs = first # rs"
      and "r = first\<lparr>seek := sk\<rparr>"
    by (auto simp: get_rotated_logs_def Let_def split: list.splits)
  with all0 show ?thesis by simp
qed

text \<open>
  C1. The claim: the kept files come oldest first, the saved offset is the resume offset
  of the oldest one and the others resume at 0; after a rotation of a live file read up
  to offset K, \<open>node.stdout.1\<close> is read from K and the new live file from 0. The code
  sorts with \<open>reverse=True\<close> and gives the offset to the first record. At the rotation
  scenario (offset 27 saved at time 5, the file rotated to \<open>node.stdout.1\<close>, a new live
  file written at time 20) it answers with the live file first, carrying offset 27, and the
  rotated file second, carrying offset 0.
\<close>

theorem get_rotated_logs_after_rotation:
  "get_rotated_logs
     [(''node.stdout.1'', \<lparr>content = ''old line 1 was read before'' @ [LF], mtime = 10\<rparr>),
      (''node.stdout'', \<lparr>content = '':error: boom'' @ [LF], mtime = 20\<rparr>),
      (''.node.stdout.offset'', \<lparr>content = ''27'', mtime = 5\<rparr>)]
     ''node.stdout'' 27 5
   = [\<lparr>logfile = ''node.stdout'', seek = 27, timestamp = 20\<rparr>,
      \<lparr>logfile = ''node.stdout.1'', seek = 0, timestamp = 10\<rparr>]"
  by code_simp

subsection \<open>The offset a segment is read from\<close>

text \<open>Neither loop looks at the offset a record carries: every file is read from the
  offset of the bookmark.\<close>

lemma scan_records_seek_irrelevant:
  "scan_records d name sk ei eire (map (\<lambda>r. r\<lparr>seek := f r\<rparr>) recs) =
   scan_records d name sk ei eire recs"
  by (induction recs) (simp_all split: option.splits sum.splits)

lemma found_in_records_seek_irrelevant:
  "found_in_records d sk re (map (\<lambda>r. r\<lparr>seek := f r\<rparr>) recs) =
   found_in_records d sk re recs"
  by (induction recs) (simp_all split: option.splits sum.splits)

text \<open>
  C2. The claim: the sweep and \<open>expect_errors\<close> read each segment from its own resume
  offset, the oldest from the bookmark and every other from byte 0. The code calls
  \<open>infile.seek(seek)\<close> with the bookmark offset for every segment. In the rotation scenario
  the bookmark is 27: the new live file, 13 bytes long, is read from byte 27, and its line
  \<open>:error: boom\<close> is not reported by the sweep. In the same way \<open>expect_errors\<close>, entered
  when the log file had 27 bytes, does not find \<open>MyExpectedError\<close> in the new live file
  and raises AssertionError.
\<close>

theorem every_segment_read_from_bookmark:
  "search_cluster_artifacts False 40
     [(''node.stdout.1'', \<lparr>content = ''old line 1 was read before'' @ [LF], mtime = 10\<rparr>),
      (''node.stdout'', \<lparr>content = '':error: boom'' @ [LF], mtime = 20\<rparr>),
      (''.node.stdout.offset'', \<lparr>content = ''27'', mtime = 5\<rparr>)]
   = Inr ([],
     [(''node.stdout.1'', \<lparr>content = ''old line 1 was read before'' @ [LF], mtime = 10\<rparr>),
      (''node.stdout'', \<lparr>content = '':error: boom'' @ [LF], mtime = 20\<rparr>),
      (''.node.stdout.offset'', \<lparr>content = ''13'', mtime = 40\<rparr>)])
   \<and>
   expect_errors_exit ''/state'' [(''/state/node.stdout'', 27)] 20
     [(''node.stdout.1'', \<lparr>content = ''old line 1 was read before'' @ [LF], mtime = 30\<rparr>),
      (''node.stdout'', \<lparr>content = ''MyExpectedError'' @ [LF], mtime = 40\<rparr>)]
     [(''*.stdout'', ''MyExpectedError'')]
   = Inl (AssertionError ''MyExpectedError'' ''/state/node.stdout'')"
  by code_simp

subsection \<open>The end-to-end scenario\<close>

text \<open>
  C3, as stated: with \<open>node.stdout\<close> holding the lines \<open>ok\<close> and \<open>ERROR: disk full\<close> and no
  bookmark, the sweep returns that line. It does not: \<open>ERROR: disk full\<close> matches none
  of \<open>:error:\<close>, \<open>failed\<close>, \<open>failure\<close>, and the sweep returns the empty list.
\<close>

theorem sweep_scenario_counterexample:
  "\<not> ERRORS_RE_search (''ERROR: disk full'' @ [LF]) \<and>
   search_cluster_artifacts False 20
     [(''node.stdout'', \<lparr>content = ''ok'' @ [LF] @ ''ERROR: disk full'' @ [LF], mtime = 10\<rparr>)]
   = Inr ([],
     [(''node.stdout'', \<lparr>content = ''ok'' @ [LF] @ ''ERROR: disk full'' @ [LF], mtime = 10\<rparr>),
      (''.node.stdout.offset'', \<lparr>content = ''20'', mtime = 20\<rparr>)])"
  by code_simp

text \<open>
  C3, amended: on the stated directory the first sweep returns the empty list, and so
  does the second one, after the rule is added and an identical line appended. With the
  line \<open>:error: disk full\<close>, which has the error signature, the first sweep returns
  that line (with its newline) under the name of \<open>node.stdout\<close>, and the second sweep,
  after \<open>add_ignore_rule("node.stdout", "disk full", "g1")\<close> and an appended identical
  line, returns the empty list.
\<close>

theorem sweep_scenario:
  "search_cluster_artifacts False 20
     [(''node.stdout'', \<lparr>content = ''ok'' @ [LF] @ ''ERROR: disk full'' @ [LF], mtime = 10\<rparr>)]
   = Inr ([],
     [(''node.stdout'', \<lparr>content = ''ok'' @ [LF] @ ''ERROR: disk full'' @ [LF], mtime = 10\<rparr>),
      (''.node.stdout.offset'', \<lparr>content = ''20'', mtime = 20\<rparr>)])
   \<and>
   search_cluster_artifacts False 50
     (append_file 40 ''node.stdout'' (''ERROR: disk full'' @ [LF])
        (add_ignore_rule 30 ''node.stdout'' ''disk full'' ''g1''
           [(''node.stdout'', \<lparr>content = ''ok'' @ [LF] @ ''ERROR: disk full'' @ [LF], mtime = 10\<rparr>),
            (''.node.stdout.offset'', \<lparr>content = ''20'', mtime = 20\<rparr>)]))
   = Inr ([],
     [(''node.stdout'',
         \<lparr>content = ''ok'' @ [LF] @ ''ERROR: disk full'' @ [LF] @ ''ERROR: disk full'' @ [LF],
          mtime = 40\<rparr>),
      (''.node.stdout.offset'', \<lparr>content = ''37'', mtime = 50\<rparr>),
      (''.errors_rules_g1'', \<lparr>content = ''node.stdout;;disk full'' @ [LF], mtime = 30\<rparr>)])
   \<and>
   search_cluster_artifacts False 20
     [(''node.stdout'', \<lparr>content = ''ok'' @ [LF] @ '':error: disk full'' @ [LF], mtime = 10\<rparr>)]
   = Inr ([(''node.stdout'', '':error: disk full'' @ [LF])],
     [(''node.stdout'', \<lparr>content = ''ok'' @ [LF] @ '':error: disk full'' @ [LF], mtime = 10\<rparr>),
      (''.node.stdout.offset'', \<lparr>content = ''21'', mtime = 20\<rparr>)])
   \<and>
   search_cluster_artifacts False 50
     (append_file 40 ''node.stdout'' ('':error: disk full'' @ [LF])
        (add_ignore_rule 30 ''node.stdout'' ''disk full'' ''g1''
           [(''node.stdout'', \<lparr>content = ''ok'' @ [LF] @ '':error: disk full'' @ [LF], mtime = 10\<rparr>),
            (''.node.stdout.offset'', \<lparr>content = ''21'', mtime = 20\<rparr>)]))
   = Inr ([],
     [(''node.stdout'',
         \<lparr>content = ''ok'' @ [LF] @ '':error: disk full'' @ [LF] @ '':error: disk full'' @ [LF],
          mtime = 40\<rparr>),
      (''.node.stdout.offset'', \<lparr>content = ''39'', mtime = 50\<rparr>),
      (''.errors_rules_g1'', \<lparr>content = ''node.stdout;;disk full'' @ [LF], mtime = 30\<rparr>)])"
  by code_simp

subsection \<open>Deleting a rules file\<close>

text \<open>
  C8. Calling \<open>del_rules_file\<close> twice in succession raises no error on either call: the
  first call leaves the directory without the rules file, whether or not it was there,
  and the second call finds no file, which is not an error.
\<close>

theorem del_rules_file_twice:
  "del_rules_file rules_file_id d = Inr (AList.delete (rules_file rules_file_id) d) \<and>
   del_rules_file rules_file_id (AList.delete (rules_file rules_file_id) d)
     = Inr (AList.delete (rules_file rules_file_id) d)"
proof -
  let ?name = "rules_file rules_file_id"
  have gone: "map_of (AList.delete ?name d) ?name = None"
    by (simp add: delete_conv')
  have first: "del_rules_file rules_file_id d = Inr (AList.delete ?name d)"
  proof (cases "map_of d ?name")
    case None
    then have "?name \<notin> fst ` set d"
      by (simp add: map_of_eq_None_iff)
    then have "AList.delete ?name d = d"
      by simp
    with None show ?thesis
      by (simp add: del_rules_file_def unlink_def)
  next
    case (Some f)
    then show ?thesis
      by (simp add: del_rules_file_def unlink_def)
  qed
  have second: "del_rules_file rules_file_id (AList.delete ?name d) = Inr (AList.delete ?name d)"
    using gone by (simp add: del_rules_file_def unlink_def)
  from first second show ?thesis
    by simp
qed

subsection \<open>Compiling an alternation\<close>























subsection \<open>What the sweep reports for a log file\<close>






subsection \<open>The empty union\<close>



subsection \<open>An expectation for a glob that matched nothing\<close>








subsection \<open>Reading back what \<open>add_ignore_rule\<close> wrote\<close>

text \<open>Text appended after complete lines is read as further lines.\<close>

lemma universal_newlines_Cons:
  "c \<noteq> CR \<Longrightarrow> universal_newlines (c # s) = c # universal_newlines s"
  by (cases s) simp_all

lemma universal_newlines_plain: "CR \<notin> set s \<Longrightarrow> universal_newlines s = s"
proof (induction s)
  case Nil
  then show ?case by simp
next
  case (Cons c s)
  then have "c \<noteq> CR" "universal_newlines s = s"
    by auto
  then show ?case
    by (simp add: universal_newlines_Cons)
qed









lemma contains_sep_here: "contains ('';;'' @ s) '';;''"
  by simp

















subsection \<open>The lock\<close>

lemma guarded_rules_block:
  "guarded lock True (map (\<lambda>ne. Rules_file (f ne)) xs @ [Release lock])"
  by (induction xs) simp_all

lemma held_after_rules_block:
  "\<not> held_after lock True (map (\<lambda>ne. Rules_file (f ne)) xs @ [Release lock])"
  by (induction xs) simp_all

lemma lock_free_sweep_logfiles_events: "lock_free (sweep_logfiles_events names)"
  by (induction names) simp_all

text \<open>
  C9, as stated: every access to the rules files and to the offset files, the read and
  the write of the offset file inside the sweep included, happens while the lock is held.
  In a state directory with one log file the sweep releases the lock after
  \<open>get_ignore_rules\<close> and then reads and writes \<open>.node.stdout.offset\<close> without it.
\<close>

theorem bookmark_outside_lock_counterexample:
  "\<not> guarded ''/tmp/ignore_rules_0.lock'' False
       (search_cluster_artifacts_events ''/tmp/ignore_rules_0.lock''
          [(''node.stdout'', \<lparr>content = ''ok'' @ [LF], mtime = 10\<rparr>)])"
  by code_simp

text \<open>
  C9, amended: \<open>add_ignore_rule\<close>, \<open>del_rules_file\<close> and \<open>get_ignore_rules\<close> touch the rules files
  only while holding the lock of the cluster instance, and have released it when they
  return. The sweep holds the lock for its call of \<open>get_ignore_rules\<close> only: what follows,
  the reads and writes of the offset files among it, acquires no lock, so the lock is never
  held across a sweep.
\<close>

theorem rule_store_under_lock:
  "guarded lock False (add_ignore_rule_events lock rules_file_id) \<and>
   \<not> held_after lock False (add_ignore_rule_events lock rules_file_id) \<and>
   guarded lock False (del_rules_file_events lock rules_file_id) \<and>
   \<not> held_after lock False (del_rules_file_events lock rules_file_id) \<and>
   guarded lock False (get_ignore_rules_events lock d) \<and>
   \<not> held_after lock False (get_ignore_rules_events lock d) \<and>
   search_cluster_artifacts_events lock d =
     get_ignore_rules_events lock d @ sweep_logfiles_events (map fst (glob_entries d ''*.std*'')) \<and>
   lock_free (sweep_logfiles_events (map fst (glob_entries d ''*.std*'')))"
  by (simp add: add_ignore_rule_events_def del_rules_file_events_def get_ignore_rules_events_def
        search_cluster_artifacts_events_def guarded_rules_block held_after_rules_block
        lock_free_sweep_logfiles_events)

subsection \<open>Two sweeps in succession\<close>

subsubsection \<open>The text of an offset file\<close>

lemma digit_cases:
  "k < 10 \<Longrightarrow> k = 0 \<or> k = 1 \<or> k = 2 \<or> k = 3 \<or> k = 4 \<or> k = 5 \<or> k = 6 \<or> k = 7 \<or> k = 8 \<or> k = (9::nat)"
  by arith

lemma digit_char_values:
  "digit_char 0 = CHR ''0'' \<and> digit_char (Suc 0) = CHR ''1'' \<and> digit_char 2 = CHR ''2'' \<and>
   digit_char 3 = CHR ''3'' \<and> digit_char 4 = CHR ''4'' \<and> digit_char 5 = CHR ''5'' \<and>
   digit_char 6 = CHR ''6'' \<and> digit_char 7 = CHR ''7'' \<and> digit_char 8 = CHR ''8'' \<and>
   digit_char 9 = CHR ''9''"
  by code_simp

lemma digit_char_props:
  assumes "k < 10"
  shows "is_digit (digit_char k) \<and> digit_val (digit_char k) = k"
  using digit_cases[OF assms]
  by (elim disjE) (simp_all add: digit_char_values is_digit_def digit_val_def)

lemma is_digit_chars:
  "is_digit c \<Longrightarrow> c \<noteq> CHR ''_'' \<and> c \<noteq> CHR ''-'' \<and> c \<noteq> CHR ''+'' \<and> c \<noteq> LF \<and> c \<noteq> CR \<and>
     \<not> is_space c \<and> is_ascii c \<and> lower_char c = c \<and> c \<noteq> CHR '':'' \<and> c \<noteq> CHR ''f''"
  unfolding is_digit_def
  by (auto simp: LF_def CR_def is_space_def is_ascii_def lower_char_def)

lemma str_nat_digits: "list_all is_digit (str_nat k)"
proof (induction k rule: str_nat.induct)
  case (1 n)
  show ?case
  proof (cases "n < 10")
    case True
    then show ?thesis
      using digit_char_props[of n] by (simp add: str_nat.simps[of n])
  next
    case False
    then have "n mod 10 < 10" by simp
    with 1 False show ?thesis
      using digit_char_props[of "n mod 10"] by (simp add: str_nat.simps[of n])
  qed
qed

lemma str_nat_nonempty: "str_nat k \<noteq> []"
  by (subst str_nat.simps) simp

lemma digits_val_snoc:
  "list_all is_digit ds \<Longrightarrow> is_digit c \<Longrightarrow> digits_val acc ds = Some v \<Longrightarrow>
   digits_val acc (ds @ [c]) = Some (10 * v + digit_val c)"
proof (induction acc ds arbitrary: v rule: digits_val.induct)
  case (1 acc)
  then show ?case by simp
next
  case (2 acc d)
  then show ?case
    using is_digit_chars[of c] by simp
next
  case (3 acc d e cs)
  from "3.prems"(1) have d: "is_digit d" and e: "is_digit e" and rest: "list_all is_digit (e # cs)"
    by simp_all
  from e have ne: "e \<noteq> CHR ''_''"
    using is_digit_chars[of e] by simp
  from "3.prems"(3) d ne have "digits_val (10 * acc + digit_val d) (e # cs) = Some v"
    by simp
  from "3.IH"(2)[OF d ne rest "3.prems"(2) this] d ne show ?case
    by simp
qed

lemma digits_val_str_nat: "digits_val 0 (str_nat k) = Some k"
proof (induction k rule: str_nat.induct)
  case (1 n)
  show ?case
  proof (cases "n < 10")
    case True
    then show ?thesis
      using digit_char_props[of n] by (simp add: str_nat.simps[of n])
  next
    case False
    then have m: "n mod 10 < 10" by simp
    from 1 False have "digits_val 0 (str_nat (n div 10)) = Some (n div 10)"
      by simp
    from digits_val_snoc[OF str_nat_digits _ this, of "digit_char (n mod 10)"]
      digit_char_props[OF m] False
    show ?thesis
      by (simp add: str_nat.simps[of n])
  qed
qed

lemma strip_digits: "list_all is_digit s \<Longrightarrow> strip s = s"
proof -
  assume a: "list_all is_digit s"
  have d: "dropWhile is_space t = t" if "list_all is_digit t" for t
    using that is_digit_chars by (cases t) auto
  from a have "list_all is_digit (rev s)"
    by (simp add: list_all_iff)
  with a d[of s] d[of "rev s"] show ?thesis
    by (simp add: strip_def)
qed

lemma py_int_str_nat: "py_int (str_nat k) = Inr (int k)"
proof -
  have s: "strip (str_nat k) = str_nat k"
    by (rule strip_digits[OF str_nat_digits])
  obtain c cs where cs: "str_nat k = c # cs"
    using str_nat_nonempty[of k] by (cases "str_nat k") auto
  with str_nat_digits[of k] have "is_digit c"
    by simp
  then have "c \<noteq> CHR ''-''" "c \<noteq> CHR ''+''"
    using is_digit_chars[of c] by simp_all
  with cs have "\<not> startswith (str_nat k) ''-''" "\<not> startswith (str_nat k) ''+''"
    by simp_all
  then show ?thesis
    unfolding py_int_def Let_def s
    by (simp add: str_nat_nonempty digits_val_str_nat)
qed

lemma lines_from_no_LF:
  "LF \<notin> set s \<Longrightarrow> lines_from acc s = (if rev acc @ s = [] then [] else [rev acc @ s])"
proof (induction s arbitrary: acc)
  case Nil
  then show ?case by simp
next
  case (Cons c s)
  then have "c \<noteq> LF" and "LF \<notin> set s"
    by auto
  with Cons.IH[of "c # acc"] show ?case
    by simp
qed

lemma digits_no_newline: "list_all is_digit s \<Longrightarrow> LF \<notin> set s \<and> CR \<notin> set s \<and> list_all is_ascii s"
  using is_digit_chars by (auto simp: list_all_iff)

text \<open>Reading a file of digits from any offset gives no line or one line of digits.\<close>

lemma read_digits:
  assumes "list_all is_digit s" and "0 \<le> sk"
  shows "\<exists>ls. read_lines_at s sk = Inr ls \<and> list_all (list_all is_digit) ls"
proof -
  let ?t = "drop (nat sk) s"
  from assms(1) have t: "list_all is_digit ?t"
    by (auto simp: list_all_iff dest: in_set_dropD)
  from digits_no_newline[OF t] have nl: "LF \<notin> set ?t" "CR \<notin> set ?t" and asc: "list_all is_ascii ?t"
    by simp_all
  have "text_lines ?t = (if ?t = [] then [] else [?t])"
    unfolding text_lines_def universal_newlines_plain[OF nl(2)]
    using lines_from_no_LF[OF nl(1), of "[]"] by simp
  with t asc assms(2) show ?thesis
    by (simp add: read_lines_at_def)
qed

lemma get_seek_str_nat: "get_seek (str_nat k) = Inr (int k)"
proof -
  from digits_no_newline[OF str_nat_digits[of k]]
  have nl: "LF \<notin> set (str_nat k)" "CR \<notin> set (str_nat k)" and asc: "list_all is_ascii (str_nat k)"
    by simp_all
  have "text_lines (str_nat k) = [str_nat k]"
    unfolding text_lines_def universal_newlines_plain[OF nl(2)]
    using lines_from_no_LF[OF nl(1), of "[]"] str_nat_nonempty[of k] by simp
  with asc have "read_lines_at (str_nat k) 0 = Inr [str_nat k]"
    by (simp add: read_lines_at_def)
  then show ?thesis
    unfolding get_seek_def
    by (simp add: strip_digits[OF str_nat_digits] py_int_str_nat)
qed

text \<open>A string of digits has no error signature.\<close>

lemma ERRORS_RE_pattern:
  "re_compile '':error:|failed|failure'' =
     Inr [map (\<lambda>c. One (Ch c)) '':error:'', map (\<lambda>c. One (Ch c)) ''failed'',
          map (\<lambda>c. One (Ch c)) ''failure'']"
  by code_simp

lemma match_here_digit:
  "is_digit c \<Longrightarrow> p = CHR '':'' \<or> p = CHR ''f'' \<Longrightarrow> \<not> match_here True (One (Ch p) # ps) (c # cs)"
  using is_digit_chars[of c] by (auto simp: lower_char_def)

lemma search_branch_digits:
  "list_all is_digit s \<Longrightarrow> p = CHR '':'' \<or> p = CHR ''f'' \<Longrightarrow>
   \<not> search_branch True (One (Ch p) # ps) s"
proof (induction s)
  case Nil
  then show ?case by simp
next
  case (Cons c s)
  then have "is_digit c" "\<not> search_branch True (One (Ch p) # ps) s"
    by simp_all
  with match_here_digit[OF this(1) Cons.prems(2)] show ?case
    by simp
qed

lemma ERRORS_RE_search_digits: "list_all is_digit s \<Longrightarrow> \<not> ERRORS_RE_search s"
  unfolding ERRORS_RE_search_def ERRORS_RE_pattern
  by (simp add: re_search_def search_branch_digits)

lemma no_offending_digits:
  "list_all (list_all is_digit) ls \<Longrightarrow> filter (offending ei eire) ls = []"
  by (induction ls) (simp_all add: offending_def ERRORS_RE_search_digits)

subsubsection \<open>Writing an offset file\<close>

lemma map_of_write_file:
  "map_of (write_file now x data dc) y =
     (if y = x then Some \<lparr>content = data, mtime = now\<rparr> else map_of dc y)"
  by (simp add: write_file_def update_conv')

lemma names_write_file: "fst ` set (write_file now x data dc) = insert x (fst ` set dc)"
  by (simp add: write_file_def dom_update)

lemma distinct_write_file:
  "distinct (map fst dc) \<Longrightarrow> distinct (map fst (write_file now x data dc))"
  by (simp add: write_file_def distinct_update)

lemma set_update_cases:
  "ne \<in> set (AList.update k v al) \<Longrightarrow> ne = (k, v) \<or> ne \<in> set al"
  by (induction al) (auto split: if_splits)

lemma list_all_write_file:
  assumes "list_all Q dc" and "Q (x, \<lparr>content = data, mtime = now\<rparr>)"
  shows "list_all Q (write_file now x data dc)"
proof -
  from assms(1) have old: "\<forall>ne \<in> set dc. Q ne"
    by (rule iffD1[OF list_all_iff])
  have "\<forall>ne \<in> set (write_file now x data dc). Q ne"
  proof
    fix ne
    assume "ne \<in> set (write_file now x data dc)"
    then have "ne = (x, \<lparr>content = data, mtime = now\<rparr>) \<or> ne \<in> set dc"
      unfolding write_file_def by (rule set_update_cases)
    with old assms(2) show "Q ne"
      by blast
  qed
  then show ?thesis
    by (rule iffD2[OF list_all_iff])
qed

lemma filter_update_other:
  "\<not> Q k \<Longrightarrow> filter (\<lambda>ne. Q (fst ne)) (AList.update k v al) = filter (\<lambda>ne. Q (fst ne)) al"
  by (induction al) auto

lemma glob_entries_write_file:
  "\<not> fnmatch pat x \<Longrightarrow> glob_entries (write_file now x data dc) pat = glob_entries dc pat"
  unfolding glob_entries_def write_file_def
  by (rule filter_update_other)

subsubsection \<open>The records of a chain\<close>

lemma set_sorted_reverse: "set (sorted_reverse key xs) = set xs"
  by (simp add: sorted_reverse_def)

lemma get_rotated_logs_members:
  assumes "r \<in> set (get_rotated_logs d name sk ts)"
  shows "\<exists>e. (logfile r, e) \<in> set d \<and> ts < mtime e"
proof -
  let ?recs = "filter (\<lambda>r. ts < timestamp r)
      (map (\<lambda>ne. \<lparr>logfile = fst ne, seek = 0, timestamp = mtime (snd ne)\<rparr>)
         (glob_entries d (name @ ''*'')))"
  let ?srt = "sorted_reverse timestamp ?recs"
  have res: "get_rotated_logs d name sk ts =
      (case ?srt of [] \<Rightarrow> [] | first # rest \<Rightarrow> (first\<lparr>seek := sk\<rparr>) # rest)"
    by (simp add: get_rotated_logs_def Let_def)
  have "\<exists>x \<in> set ?srt. logfile r = logfile x"
  proof (cases ?srt)
    case Nil
    with assms res show ?thesis
      by simp
  next
    case (Cons first rest)
    with assms res have "r = first\<lparr>seek := sk\<rparr> \<or> r \<in> set rest"
      by simp
    then show ?thesis
    proof
      assume "r = first\<lparr>seek := sk\<rparr>"
      then have "logfile r = logfile first"
        by simp
      with Cons show ?thesis
        by simp
    next
      assume "r \<in> set rest"
      with Cons show ?thesis
        by auto
    qed
  qed
  then obtain x where x: "x \<in> set ?recs" and r: "logfile r = logfile x"
    unfolding set_sorted_reverse by blast
  from x have ts: "ts < timestamp x"
    by simp
  from x obtain ne where ne: "ne \<in> set (glob_entries d (name @ ''*''))"
    and xe: "x = \<lparr>logfile = fst ne, seek = 0, timestamp = mtime (snd ne)\<rparr>"
    by auto
  from ne have "ne \<in> set d"
    by (simp add: glob_entries_def)
  with xe ts r have "(logfile r, snd ne) \<in> set d \<and> ts < mtime (snd ne)"
    by simp
  then show ?thesis
    by (rule exI)
qed

subsubsection \<open>One log file in the second sweep\<close>

lemma scan_records_quiet:
  assumes "list_all (\<lambda>r. case map_of d (logfile r) of
                          None \<Rightarrow> False | Some f \<Rightarrow> list_all is_digit (content f)) recs"
    and "0 \<le> sk"
  shows "scan_records d name sk ei eire recs = Inr []"
  using assms(1)
proof (induction recs)
  case Nil
  then show ?case by simp
next
  case (Cons r recs)
  from Cons.prems obtain f where f: "map_of d (logfile r) = Some f" "list_all is_digit (content f)"
    by (auto split: option.splits)
  from read_digits[OF f(2) assms(2)] obtain ls where
    ls: "read_lines_at (content f) sk = Inr ls" "list_all (list_all is_digit) ls"
    by blast
  from Cons have rest: "scan_records d name sk ei eire recs = Inr []"
    by simp
  show ?case
    by (simp add: f(1) ls(1) rest no_offending_digits[OF ls(2)])
qed

lemma str_int_eof: "str_int (get_eof_offset live) = str_nat (length (content live))"
  by (simp add: str_int_def get_eof_offset_def)

lemma sweep_logfile_effect:
  assumes "sweep_logfile rules regs now n dc = Inr (errs, d')"
  shows "\<exists>live. map_of dc n = Some live \<and>
           d' = write_file now (offset_file n) (str_nat (length (content live))) dc \<and>
           compiles (get_ignore_regex rules regs n)"
proof -
  from assms obtain sk ts where bm: "read_bookmark dc n = Inr (sk, ts)"
    unfolding sweep_logfile_def by (cases "read_bookmark dc n") auto
  from assms bm obtain p where p: "re_compile (get_ignore_regex rules regs n) = Inr p"
    unfolding sweep_logfile_def Let_def
    by (cases "re_compile (get_ignore_regex rules regs n)") auto
  from assms bm p obtain live where live: "map_of dc n = Some live"
    unfolding sweep_logfile_def Let_def by (cases "map_of dc n") auto
  from assms bm p live
  have "d' = write_file now (offset_file n) (str_int (get_eof_offset live)) dc"
    unfolding sweep_logfile_def Let_def by (auto split: sum.splits)
  with live p show ?thesis
    by (simp add: str_int_eof compiles_def)
qed

lemma sweep_logfile_quiet:
  assumes bm: "map_of dc (offset_file n) = Some \<lparr>content = str_nat k, mtime = now1\<rparr>"
    and comp: "compiles (get_ignore_regex rules regs n)"
    and live: "map_of dc n = Some live"
    and dist: "distinct (map fst dc)"
    and inv: "list_all (\<lambda>ne. mtime (snd ne) \<le> now1 \<or> list_all is_digit (content (snd ne))) dc"
  shows "sweep_logfile rules regs now2 n dc =
           Inr ([], write_file now2 (offset_file n) (str_nat (length (content live))) dc)"
proof -
  let ?d' = "write_file now2 (offset_file n) (str_nat (length (content live))) dc"
  let ?ei = "get_ignore_regex rules regs n"
  from bm have rb: "read_bookmark dc n = Inr (int k, now1)"
    by (simp add: read_bookmark_def get_seek_str_nat)
  from comp obtain p where p: "re_compile ?ei = Inr p"
    by (auto simp: compiles_def split: sum.splits)
  have inv': "list_all (\<lambda>ne. mtime (snd ne) \<le> now1 \<or> list_all is_digit (content (snd ne))) ?d'"
    by (rule list_all_write_file[OF inv]) (simp add: str_nat_digits)
  have dist': "distinct (map fst ?d')"
    by (rule distinct_write_file[OF dist])
  have "\<forall>r \<in> set (get_rotated_logs ?d' n (int k) now1).
          case map_of ?d' (logfile r) of
            None \<Rightarrow> False | Some f \<Rightarrow> list_all is_digit (content f)"
  proof
    fix r
    assume "r \<in> set (get_rotated_logs ?d' n (int k) now1)"
    from get_rotated_logs_members[OF this] obtain e where
      e: "(logfile r, e) \<in> set ?d'" "now1 < mtime e"
      by blast
    from e(1) dist' have m: "map_of ?d' (logfile r) = Some e"
      by (simp add: map_of_eq_Some_iff)
    from inv' have "\<forall>ne \<in> set ?d'. mtime (snd ne) \<le> now1 \<or> list_all is_digit (content (snd ne))"
      by (rule iffD1[OF list_all_iff])
    from bspec[OF this e(1)] have "mtime (snd (logfile r, e)) \<le> now1 \<or>
        list_all is_digit (content (snd (logfile r, e)))" .
    with e(2) have "list_all is_digit (content e)"
      by simp
    with m show "case map_of ?d' (logfile r) of
                   None \<Rightarrow> False | Some f \<Rightarrow> list_all is_digit (content f)"
      by simp
  qed
  then have "list_all (\<lambda>r. case map_of ?d' (logfile r) of
                          None \<Rightarrow> False | Some f \<Rightarrow> list_all is_digit (content f))
          (get_rotated_logs ?d' n (int k) now1)"
    by (rule iffD2[OF list_all_iff])
  then have "scan_records ?d' n (int k) ?ei p (get_rotated_logs ?d' n (int k) now1) = Inr []"
    by (rule scan_records_quiet) simp
  then show ?thesis
    unfolding sweep_logfile_def Let_def rb p
    by (simp add: live str_int_eof)
qed

subsubsection \<open>What the first sweep leaves\<close>

lemma offset_file_inject: "offset_file a = offset_file b \<Longrightarrow> a = b"
  by (simp add: offset_file_def)

lemma startswith_append: "startswith (p @ s) p"
  by (induction p) simp_all

lemma skipped_offset_file: "skipped (offset_file m)"
proof -
  have "rev (offset_file m) = rev ''.offset'' @ rev (''.'' @ m)"
    by (simp add: offset_file_def)
  then show ?thesis
    unfolding skipped_def endswith_def using startswith_append by metis
qed

lemma sweep_logfiles_step:
  assumes "\<not> skipped n" and "sweep_logfiles rules regs now (n # names) dc = Inr (errs, d1)"
  shows "\<exists>live d'. map_of dc n = Some live \<and>
           d' = write_file now (offset_file n) (str_nat (length (content live))) dc \<and>
           compiles (get_ignore_regex rules regs n) \<and>
           (\<exists>e2. sweep_logfiles rules regs now names d' = Inr (e2, d1))"
proof -
  from assms obtain e1 d' where step: "sweep_logfile rules regs now n dc = Inr (e1, d')"
    by (cases "sweep_logfile rules regs now n dc") auto
  with assms obtain e2 where rest: "sweep_logfiles rules regs now names d' = Inr (e2, d1)"
    by (cases "sweep_logfiles rules regs now names d'") auto
  from sweep_logfile_effect[OF step] rest show ?thesis
    by blast
qed

text \<open>Files other than the offset files of the listed names are left as they were.\<close>

lemma first_sweep_frame:
  "sweep_logfiles rules regs now names dc = Inr (errs, d1) \<Longrightarrow>
   x \<notin> offset_file ` set names \<Longrightarrow> map_of d1 x = map_of dc x"
proof (induction names arbitrary: dc errs)
  case Nil
  then show ?case by simp
next
  case (Cons n names)
  from Cons.prems(2) have x: "x \<noteq> offset_file n" "x \<notin> offset_file ` set names"
    by auto
  show ?case
  proof (cases "skipped n")
    case True
    with Cons.prems(1) have "sweep_logfiles rules regs now names dc = Inr (errs, d1)"
      by simp
    from Cons.IH[OF this x(2)] show ?thesis .
  next
    case False
    from sweep_logfiles_step[OF False Cons.prems(1)] obtain live d' e2 where
      live: "map_of dc n = Some live"
      and d': "d' = write_file now (offset_file n) (str_nat (length (content live))) dc"
      and comp: "compiles (get_ignore_regex rules regs n)"
      and rest: "sweep_logfiles rules regs now names d' = Inr (e2, d1)"
      by (elim exE conjE) (rule that)
    from Cons.IH[OF rest x(2)] have "map_of d1 x = map_of d' x" .
    with d' x(1) show ?thesis
      by (simp add: map_of_write_file)
  qed
qed

lemma first_sweep_names:
  "sweep_logfiles rules regs now names dc = Inr (errs, d1) \<Longrightarrow>
   fst ` set dc \<subseteq> fst ` set d1 \<and> fst ` set d1 \<subseteq> fst ` set dc \<union> offset_file ` set names"
proof (induction names arbitrary: dc errs)
  case Nil
  then show ?case by simp
next
  case (Cons n names)
  show ?case
  proof (cases "skipped n")
    case True
    with Cons.prems have "sweep_logfiles rules regs now names dc = Inr (errs, d1)"
      by simp
    from Cons.IH[OF this] show ?thesis
      by auto
  next
    case False
    from sweep_logfiles_step[OF False Cons.prems] obtain live d' e2 where
      live: "map_of dc n = Some live"
      and d': "d' = write_file now (offset_file n) (str_nat (length (content live))) dc"
      and comp: "compiles (get_ignore_regex rules regs n)"
      and rest: "sweep_logfiles rules regs now names d' = Inr (e2, d1)"
      by (elim exE conjE) (rule that)
    from d' have n: "fst ` set d' = insert (offset_file n) (fst ` set dc)"
      by (simp add: names_write_file)
    from Cons.IH[OF rest] have "fst ` set d' \<subseteq> fst ` set d1"
      and "fst ` set d1 \<subseteq> fst ` set d' \<union> offset_file ` set names"
      by simp_all
    then show ?thesis
      unfolding n by auto
  qed
qed

lemma first_sweep_distinct:
  "sweep_logfiles rules regs now names dc = Inr (errs, d1) \<Longrightarrow>
   distinct (map fst dc) \<Longrightarrow> distinct (map fst d1)"
proof (induction names arbitrary: dc errs)
  case Nil
  then show ?case by simp
next
  case (Cons n names)
  show ?case
  proof (cases "skipped n")
    case True
    with Cons.prems(1) have "sweep_logfiles rules regs now names dc = Inr (errs, d1)"
      by simp
    from Cons.IH[OF this Cons.prems(2)] show ?thesis .
  next
    case False
    from sweep_logfiles_step[OF False Cons.prems(1)] obtain live d' e2 where
      live: "map_of dc n = Some live"
      and d': "d' = write_file now (offset_file n) (str_nat (length (content live))) dc"
      and comp: "compiles (get_ignore_regex rules regs n)"
      and rest: "sweep_logfiles rules regs now names d' = Inr (e2, d1)"
      by (elim exE conjE) (rule that)
    from d' Cons.prems(2) have "distinct (map fst d')"
      by (simp add: distinct_write_file)
    from Cons.IH[OF rest this] show ?thesis .
  qed
qed

lemma first_sweep_past:
  "sweep_logfiles rules regs now names dc = Inr (errs, d1) \<Longrightarrow>
   list_all (\<lambda>ne. mtime (snd ne) \<le> now) dc \<Longrightarrow> list_all (\<lambda>ne. mtime (snd ne) \<le> now) d1"
proof (induction names arbitrary: dc errs)
  case Nil
  then show ?case by simp
next
  case (Cons n names)
  show ?case
  proof (cases "skipped n")
    case True
    with Cons.prems(1) have "sweep_logfiles rules regs now names dc = Inr (errs, d1)"
      by simp
    from Cons.IH[OF this Cons.prems(2)] show ?thesis .
  next
    case False
    from sweep_logfiles_step[OF False Cons.prems(1)] obtain live d' e2 where
      live: "map_of dc n = Some live"
      and d': "d' = write_file now (offset_file n) (str_nat (length (content live))) dc"
      and comp: "compiles (get_ignore_regex rules regs n)"
      and rest: "sweep_logfiles rules regs now names d' = Inr (e2, d1)"
      by (elim exE conjE) (rule that)
    have "list_all (\<lambda>ne. mtime (snd ne) \<le> now) d'"
      unfolding d' by (rule list_all_write_file[OF Cons.prems(2)]) simp
    from Cons.IH[OF rest this] show ?thesis .
  qed
qed

lemma first_sweep_glob:
  "sweep_logfiles rules regs now names dc = Inr (errs, d1) \<Longrightarrow>
   list_all (\<lambda>n. skipped n \<or> \<not> fnmatch pat (offset_file n)) names \<Longrightarrow>
   glob_entries d1 pat = glob_entries dc pat"
proof (induction names arbitrary: dc errs)
  case Nil
  then show ?case by simp
next
  case (Cons n names)
  from Cons.prems(2) have tl: "list_all (\<lambda>n. skipped n \<or> \<not> fnmatch pat (offset_file n)) names"
    by simp
  show ?case
  proof (cases "skipped n")
    case True
    with Cons.prems(1) have "sweep_logfiles rules regs now names dc = Inr (errs, d1)"
      by simp
    from Cons.IH[OF this tl] show ?thesis .
  next
    case False
    from sweep_logfiles_step[OF False Cons.prems(1)] obtain live d' e2 where
      live: "map_of dc n = Some live"
      and d': "d' = write_file now (offset_file n) (str_nat (length (content live))) dc"
      and comp: "compiles (get_ignore_regex rules regs n)"
      and rest: "sweep_logfiles rules regs now names d' = Inr (e2, d1)"
      by (elim exE conjE) (rule that)
    from False Cons.prems(2) have "\<not> fnmatch pat (offset_file n)"
      by simp
    then have "glob_entries d' pat = glob_entries dc pat"
      unfolding d' by (rule glob_entries_write_file)
    with Cons.IH[OF rest tl] show ?thesis
      by simp
  qed
qed

text \<open>Every log file that was not skipped has its offset file, written at the time of the
  sweep and holding a number, and its combined regex compiled.\<close>

lemma first_sweep_bookmarks:
  "sweep_logfiles rules regs now names dc = Inr (errs, d1) \<Longrightarrow>
   n \<in> set names \<Longrightarrow> \<not> skipped n \<Longrightarrow>
   (\<exists>k. map_of d1 (offset_file n) = Some \<lparr>content = str_nat k, mtime = now\<rparr>) \<and>
   compiles (get_ignore_regex rules regs n)"
proof (induction names arbitrary: dc errs)
  case Nil
  then show ?case by simp
next
  case (Cons m names)
  show ?case
  proof (cases "n \<in> set names")
    case True
    show ?thesis
    proof (cases "skipped m")
      case True
      with Cons.prems(1) have "sweep_logfiles rules regs now names dc = Inr (errs, d1)"
        by simp
      from Cons.IH[OF this \<open>n \<in> set names\<close> Cons.prems(3)] show ?thesis .
    next
      case False
      from sweep_logfiles_step[OF False Cons.prems(1)] obtain live d' e2 where
        live: "map_of dc m = Some live"
        and d': "d' = write_file now (offset_file m) (str_nat (length (content live))) dc"
        and comp: "compiles (get_ignore_regex rules regs m)"
        and rest: "sweep_logfiles rules regs now names d' = Inr (e2, d1)"
        by (elim exE conjE) (rule that)
      from Cons.IH[OF rest True Cons.prems(3)] show ?thesis .
    qed
  next
    case False
    with Cons.prems(2) have nm: "n = m"
      by simp
    with Cons.prems(3) have ns: "\<not> skipped m"
      by simp
    from sweep_logfiles_step[OF ns Cons.prems(1)] obtain live d' e2 where
      live: "map_of dc m = Some live"
      and d': "d' = write_file now (offset_file m) (str_nat (length (content live))) dc"
      and comp: "compiles (get_ignore_regex rules regs m)"
      and rest: "sweep_logfiles rules regs now names d' = Inr (e2, d1)"
      by (elim exE conjE) (rule that)
    have "offset_file m \<notin> offset_file ` set names"
    proof
      assume "offset_file m \<in> offset_file ` set names"
      then obtain y where "y \<in> set names" "offset_file m = offset_file y"
        by (rule imageE)
      with offset_file_inject[of m y] False nm show False
        by simp
    qed
    from first_sweep_frame[OF rest this]
    have "map_of d1 (offset_file m) =
        Some \<lparr>content = str_nat (length (content live)), mtime = now\<rparr>"
      unfolding d' by (simp add: map_of_write_file)
    with comp show ?thesis
      unfolding nm by (intro conjI exI)
  qed
qed

subsubsection \<open>The second sweep\<close>

lemma second_sweep_quiet:
  assumes "distinct names"
    and "\<forall>n \<in> set names. \<not> skipped n \<longrightarrow>
           (\<exists>k. map_of dc (offset_file n) = Some \<lparr>content = str_nat k, mtime = now1\<rparr>) \<and>
           compiles (get_ignore_regex rules regs n) \<and> map_of dc n \<noteq> None"
    and "distinct (map fst dc)"
    and "list_all (\<lambda>ne. mtime (snd ne) \<le> now1 \<or> list_all is_digit (content (snd ne))) dc"
  shows "\<exists>d2. sweep_logfiles rules regs now2 names dc = Inr ([], d2)"
  using assms
proof (induction names arbitrary: dc)
  case Nil
  then show ?case by simp
next
  case (Cons m names)
  from Cons.prems(1) have dn: "distinct names" and mn: "m \<notin> set names"
    by simp_all
  show ?case
  proof (cases "skipped m")
    case True
    from Cons.prems(2) have "\<forall>n \<in> set names. \<not> skipped n \<longrightarrow>
           (\<exists>k. map_of dc (offset_file n) = Some \<lparr>content = str_nat k, mtime = now1\<rparr>) \<and>
           compiles (get_ignore_regex rules regs n) \<and> map_of dc n \<noteq> None"
      by simp
    from Cons.IH[OF dn this Cons.prems(3) Cons.prems(4)] True show ?thesis
      by simp
  next
    case False
    with Cons.prems(2) obtain k live where
      bm: "map_of dc (offset_file m) = Some \<lparr>content = str_nat k, mtime = now1\<rparr>"
      and comp: "compiles (get_ignore_regex rules regs m)"
      and live: "map_of dc m = Some live"
      by auto
    let ?d' = "write_file now2 (offset_file m) (str_nat (length (content live))) dc"
    from sweep_logfile_quiet[OF bm comp live Cons.prems(3) Cons.prems(4)]
    have step: "sweep_logfile rules regs now2 m dc = Inr ([], ?d')" .
    have dist': "distinct (map fst ?d')"
      by (rule distinct_write_file[OF Cons.prems(3)])
    have inv': "list_all (\<lambda>ne. mtime (snd ne) \<le> now1 \<or> list_all is_digit (content (snd ne))) ?d'"
      by (rule list_all_write_file[OF Cons.prems(4)]) (simp add: str_nat_digits)
    have "\<forall>n \<in> set names. \<not> skipped n \<longrightarrow>
           (\<exists>k. map_of ?d' (offset_file n) = Some \<lparr>content = str_nat k, mtime = now1\<rparr>) \<and>
           compiles (get_ignore_regex rules regs n) \<and> map_of ?d' n \<noteq> None"
    proof (intro ballI impI)
      fix n
      assume n: "n \<in> set names" and ns: "\<not> skipped n"
      with Cons.prems(2) have old:
        "\<exists>k. map_of dc (offset_file n) = Some \<lparr>content = str_nat k, mtime = now1\<rparr>"
        "compiles (get_ignore_regex rules regs n)" "map_of dc n \<noteq> None"
        by simp_all
      from n mn have "n \<noteq> m"
        by blast
      then have "offset_file n \<noteq> offset_file m"
        using offset_file_inject[of n m] by blast
      with old show "(\<exists>k. map_of ?d' (offset_file n) = Some \<lparr>content = str_nat k, mtime = now1\<rparr>) \<and>
           compiles (get_ignore_regex rules regs n) \<and> map_of ?d' n \<noteq> None"
        by (simp add: map_of_write_file)
    qed
    from Cons.IH[OF dn this dist' inv'] obtain d2 where
      "sweep_logfiles rules regs now2 names ?d' = Inr ([], d2)"
      by (rule exE)
    with step False show ?thesis
      by simp
  qed
qed

lemma weaken_past:
  "list_all (\<lambda>ne. mtime (snd ne) \<le> now1) d \<Longrightarrow>
   list_all (\<lambda>ne. mtime (snd ne) \<le> now1 \<or> list_all is_digit (content (snd ne))) d"
  by (induction d) simp_all

lemma glob_entries_names:
  "n \<in> set (map fst (glob_entries d pat)) \<longleftrightarrow> n \<in> fst ` set d \<and> fnmatch pat n"
  unfolding glob_entries_def by (induction d) auto

text \<open>
  C4: two sweeps in succession. Let the state directory name each file once, let no file
  of it be modified later than the time of the first sweep, and let no log file that the
  sweep scans have an offset file whose name is that of a rules file. If the first sweep
  returns, then the second sweep, on the directory the first one left, with no write in
  between and at any time, returns too, and its list of offending lines is empty.
\<close>

theorem second_sweep_is_empty:
  assumes dist: "distinct (map fst d)"
    and past: "list_all (\<lambda>ne. mtime (snd ne) \<le> now1) d"
    and apart: "list_all (\<lambda>n. skipped n \<or> \<not> fnmatch (ERRORS_RULES_FILE_NAME @ ''_*'') (offset_file n))
                  (map fst (glob_entries d ''*.std*''))"
    and first: "search_cluster_artifacts alonzo now1 d = Inr (errors1, d1)"
  shows "\<exists>d2. search_cluster_artifacts alonzo now2 d1 = Inr ([], d2)"
proof -
  let ?names = "map fst (glob_entries d ''*.std*'')"
  let ?names2 = "map fst (glob_entries d1 ''*.std*'')"
  let ?regs = "ERRORS_IGNORED alonzo"
  from first obtain rules where gr: "get_ignore_rules d = Inr rules"
    unfolding search_cluster_artifacts_def by (cases "get_ignore_rules d") auto
  with first have sw: "sweep_logfiles rules ?regs now1 ?names d = Inr (errors1, d1)"
    unfolding search_cluster_artifacts_def by simp
  from first_sweep_glob[OF sw apart] gr have gr1: "get_ignore_rules d1 = Inr rules"
    by (simp add: get_ignore_rules_def)
  from first_sweep_distinct[OF sw dist] have dist1: "distinct (map fst d1)" .
  from first_sweep_past[OF sw past] have "list_all (\<lambda>ne. mtime (snd ne) \<le> now1) d1" .
  then have inv1: "list_all (\<lambda>ne. mtime (snd ne) \<le> now1 \<or>
      list_all is_digit (content (snd ne))) d1"
    by (rule weaken_past)
  from dist1 have dn2: "distinct ?names2"
    unfolding glob_entries_def by (rule distinct_map_filter)
  from first_sweep_names[OF sw] have sub: "fst ` set d1 \<subseteq> fst ` set d \<union> offset_file ` set ?names"
    by (rule conjunct2)
  have "\<forall>n \<in> set ?names2. \<not> skipped n \<longrightarrow>
           (\<exists>k. map_of d1 (offset_file n) = Some \<lparr>content = str_nat k, mtime = now1\<rparr>) \<and>
           compiles (get_ignore_regex rules ?regs n) \<and> map_of d1 n \<noteq> None"
  proof (intro ballI impI)
    fix n
    assume n2: "n \<in> set ?names2" and ns: "\<not> skipped n"
    from n2 have in1: "n \<in> fst ` set d1" and fm: "fnmatch ''*.std*'' n"
      by (simp_all only: glob_entries_names)
    from in1 sub have "n \<in> fst ` set d \<or> n \<in> offset_file ` set ?names"
      by blast
    moreover have "n \<notin> offset_file ` set ?names"
    proof
      assume "n \<in> offset_file ` set ?names"
      then obtain y where "n = offset_file y"
        by (rule imageE)
      with skipped_offset_file[of y] ns show False
        by simp
    qed
    ultimately have "n \<in> fst ` set d"
      by blast
    with fm have "n \<in> set ?names"
      by (simp only: glob_entries_names)
    from first_sweep_bookmarks[OF sw this ns]
    have a: "(\<exists>k. map_of d1 (offset_file n) = Some \<lparr>content = str_nat k, mtime = now1\<rparr>) \<and>
        compiles (get_ignore_regex rules ?regs n)" .
    from in1 have "map_of d1 n \<noteq> None"
      by (simp add: map_of_eq_None_iff)
    with a show "(\<exists>k. map_of d1 (offset_file n) = Some \<lparr>content = str_nat k, mtime = now1\<rparr>) \<and>
           compiles (get_ignore_regex rules ?regs n) \<and> map_of d1 n \<noteq> None"
      by simp
  qed
  from second_sweep_quiet[OF dn2 this dist1 inv1, of now2] obtain d2 where
    "sweep_logfiles rules ?regs now2 ?names2 d1 = Inr ([], d2)"
    by (rule exE)
  with gr1 have "search_cluster_artifacts alonzo now2 d1 = Inr ([], d2)"
    unfolding search_cluster_artifacts_def by simp
  then show ?thesis
    by (rule exI)
qed

text \<open>The theorem on a directory with a live log and a rotated one, both with an error
  line: the first sweep reports the two lines, the second one none.\<close>

theorem second_sweep_is_empty_witness:
  "search_cluster_artifacts False 20
     [(''node.stdout'', \<lparr>content = ''ok'' @ [LF] @ '':error: disk full'' @ [LF], mtime = 10\<rparr>),
      (''node.stdout.1'', \<lparr>content = ''connection failed'' @ [LF], mtime = 5\<rparr>)]
   = Inr ([(''node.stdout'', '':error: disk full'' @ [LF]),
           (''node.stdout'', ''connection failed'' @ [LF])],
     [(''node.stdout'', \<lparr>content = ''ok'' @ [LF] @ '':error: disk full'' @ [LF], mtime = 10\<rparr>),
      (''node.stdout.1'', \<lparr>content = ''connection failed'' @ [LF], mtime = 5\<rparr>),
      (''.node.stdout.offset'', \<lparr>content = ''21'', mtime = 20\<rparr>)])
   \<and> (\<exists>d2. search_cluster_artifacts False 30
     [(''node.stdout'', \<lparr>content = ''ok'' @ [LF] @ '':error: disk full'' @ [LF], mtime = 10\<rparr>),
      (''node.stdout.1'', \<lparr>content = ''connection failed'' @ [LF], mtime = 5\<rparr>),
      (''.node.stdout.offset'', \<lparr>content = ''21'', mtime = 20\<rparr>)] = Inr ([], d2))"
proof -
  let ?d = "[(''node.stdout'', \<lparr>content = ''ok'' @ [LF] @ '':error: disk full'' @ [LF], mtime = 10\<rparr>),
      (''node.stdout.1'', \<lparr>content = ''connection failed'' @ [LF], mtime = 5::real\<rparr>)]"
  have dist: "distinct (map fst ?d)"
    by simp
  have past: "list_all (\<lambda>ne. mtime (snd ne) \<le> 20) ?d"
    by simp
  have apart: "list_all (\<lambda>n. skipped n \<or>
      \<not> fnmatch (ERRORS_RULES_FILE_NAME @ ''_*'') (offset_file n)) (map fst (glob_entries ?d ''*.std*''))"
    by code_simp
  have first: "search_cluster_artifacts False 20 ?d
   = Inr ([(''node.stdout'', '':error: disk full'' @ [LF]),
           (''node.stdout'', ''connection failed'' @ [LF])],
     [(''node.stdout'', \<lparr>content = ''ok'' @ [LF] @ '':error: disk full'' @ [LF], mtime = 10\<rparr>),
      (''node.stdout.1'', \<lparr>content = ''connection failed'' @ [LF], mtime = 5\<rparr>),
      (''.node.stdout.offset'', \<lparr>content = ''21'', mtime = 20\<rparr>)])"
    by code_simp
  from second_sweep_is_empty[OF dist past apart first, of 30] first
  show ?thesis
    by (rule conjI[rotated])
qed

end
